theory Spec2Isabelle
  imports Main "HOL-Library.AList" "HOL-Library.Multiset" "HOL-Library.Sublist"
begin

section \<open>Package records (package \<open>packages\<close>)\<close>

text \<open>
  \<^verbatim>\<open>type Source struct { Name, Version string }\<close> and
  \<^verbatim>\<open>type PkgInfo struct { Name, Arch, RawArch, Version string; Source Source }\<close>.
  The Go code passes \<^verbatim>\<open>*PkgInfo\<close>; the model passes the record the pointer refers to
  (the comparison never writes through the pointer and is never given a nil entry by
  the extraction paths).
\<close>

record Source =
  Source_Name :: string
  Source_Version :: string

record PkgInfo =
  Name :: string
  Arch :: string
  RawArch :: string
  Version :: string
  Source :: Source

text \<open>
  Modelled from the spec: the method \<^verbatim>\<open>(*PkgInfo).key()\<close> that \<^verbatim>\<open>indexByKey\<close> calls
  is not among the source files. The spec gives the identity key as
  \<open>(Name, Architecture, Version)\<close>; the three fields are kept as a triple.
  Every function below takes the key function as a parameter, and \<open>key\<close> is only
  used where a concrete inventory is evaluated.
\<close>

definition key :: "PkgInfo \<Rightarrow> string \<times> string \<times> string" where
  "key i = (Name i, Arch i, Version i)"

section \<open>Inventory reconciliation (\<open>inventory_comporator.go\<close>)\<close>

text \<open>
  A Go map is an association list with distinct keys: \<open>m[k] = v\<close> is \<open>AList.update\<close>,
  the lookup \<open>_, ok := m[k]\<close> is \<open>map_of m k \<noteq> None\<close>.
\<close>

type_synonym ('k, 'v) gomap = "('k \<times> 'v) list"

text \<open>
  \<^verbatim>\<open>
  func indexByKey(pkgs []*PkgInfo) map[string]*PkgInfo {
      results := make(map[string]*PkgInfo, len(pkgs))
      for _, pkg := range pkgs {
          results[pkg.key()] = pkg
      }
      return results
  }
  \<close>
\<close>

fun indexByKey_loop :: "('p \<Rightarrow> 'k) \<Rightarrow> ('k, 'p) gomap \<Rightarrow> 'p list \<Rightarrow> ('k, 'p) gomap" where
  "indexByKey_loop kf results [] = results"
| "indexByKey_loop kf results (pkg # pkgs) =
     indexByKey_loop kf (AList.update (kf pkg) pkg results) pkgs"

definition indexByKey :: "('p \<Rightarrow> 'k) \<Rightarrow> 'p list \<Rightarrow> ('k, 'p) gomap" where
  "indexByKey kf pkgs = indexByKey_loop kf [] pkgs"

text \<open>
  \<^verbatim>\<open>
  for key, pkg := range index {
      if _, ok := other[key]; !ok {
          extra = append(extra, pkg)
      }
  }
  \<close>
  The loop body, over the entries in the order the range statement visits them.
\<close>

fun extra_loop :: "('k, 'p) gomap \<Rightarrow> ('k \<times> 'p) list \<Rightarrow> 'p list \<Rightarrow> 'p list" where
  "extra_loop other [] extra = extra"
| "extra_loop other ((k, pkg) # es) extra =
     (if map_of other k = None then extra_loop other es (extra @ [pkg])
      else extra_loop other es extra)"

text \<open>
  Go does not fix the order in which \<open>range\<close> visits a map. The order of each of the two
  loops is a parameter: a function from the map's entries to the sequence visited. A
  range order visits every entry once, which is \<open>rangeOrder\<close>.
\<close>

definition rangeOrder :: "(('k \<times> 'p) list \<Rightarrow> ('k \<times> 'p) list) \<Rightarrow> bool" where
  "rangeOrder ord = (\<forall>m. mset (ord m) = mset m)"

record 'p comparisonResults =
  legacyExtractorItemsCount :: int
  modernExtractorItemsCount :: int
  legacyExtractorExtra :: "'p list"
  modernExtractorExtra :: "'p list"

text \<open>
  \<^verbatim>\<open>
  func compareExtractedPackages(legacyExtractor, modernExtractor []*PkgInfo) comparisonResults {
      legacyExtractorIndex := indexByKey(legacyExtractor)
      modernExtractorIndex := indexByKey(modernExtractor)
      var legacyExtractorExtra, modernExtractorExtra []*PkgInfo
      for key, pkg := range legacyExtractorIndex { ... }
      for key, pkg := range modernExtractorIndex { ... }
      return comparisonResults{
          legacyExtractorItemsCount: len(legacyExtractor),
          modernExtractorItemsCount: len(modernExtractor),
          legacyExtractorExtra: legacyExtractorExtra,
          modernExtractorExtra: modernExtractorExtra,
      }
  }
  \<close>
  \<open>kf\<close> is the key method, \<open>ord1\<close> and \<open>ord2\<close> the orders of the first and second loop.
  A nil slice and an empty slice are both the empty list.
\<close>

definition compareExtractedPackages ::
  "('p \<Rightarrow> 'k) \<Rightarrow> (('k \<times> 'p) list \<Rightarrow> ('k \<times> 'p) list) \<Rightarrow> (('k \<times> 'p) list \<Rightarrow> ('k \<times> 'p) list)
     \<Rightarrow> 'p list \<Rightarrow> 'p list \<Rightarrow> 'p comparisonResults" where
  "compareExtractedPackages kf ord1 ord2 legacyExtractor modernExtractor =
     (let legacyExtractorIndex = indexByKey kf legacyExtractor;
          modernExtractorIndex = indexByKey kf modernExtractor;
          legacyExtra = extra_loop modernExtractorIndex (ord1 legacyExtractorIndex) [];
          modernExtra = extra_loop legacyExtractorIndex (ord2 modernExtractorIndex) []
      in \<lparr> legacyExtractorItemsCount = int (length legacyExtractor),
           modernExtractorItemsCount = int (length modernExtractor),
           legacyExtractorExtra = legacyExtra,
           modernExtractorExtra = modernExtra \<rparr>)"

subsection \<open>The inventories of the spec's reconciliation example\<close>

definition pkg_a :: PkgInfo where
  "pkg_a = \<lparr> Name = ''a'', Arch = ''x86_64'', RawArch = [], Version = ''1.0'',
     Source = \<lparr> Source_Name = [], Source_Version = [] \<rparr> \<rparr>"

definition pkg_b :: PkgInfo where
  "pkg_b = \<lparr> Name = ''b'', Arch = ''noarch'', RawArch = [], Version = ''2.0'',
     Source = \<lparr> Source_Name = [], Source_Version = [] \<rparr> \<rparr>"

text \<open>A record with the identity key of \<open>pkg_a\<close> and another raw architecture.\<close>

definition pkg_a_raw :: PkgInfo where
  "pkg_a_raw = pkg_a \<lparr> RawArch := ''amd64'' \<rparr>"

section \<open>Structured extraction (package \<open>extractors\<close> and its \<open>scalibr\<close> binding)\<close>

text \<open>
  \<^verbatim>\<open>
  type Inventory struct {
      Name    string
      Version string
      RawArch string
      Source Source
      Purl   string
  }
  type Source struct { Name, Version string }
  \<close>
\<close>

record extractors_Source =
  es_Name :: string
  es_Version :: string

record Inventory =
  Inventory_Name :: string
  Inventory_Version :: string
  Inventory_RawArch :: string
  Inventory_Source :: extractors_Source
  Inventory_Purl :: string

text \<open>
  The scanner library's types, as far as the binding reads them. \<open>ScanStatusEnum\<close> has
  the library's four values. Of \<open>dpkg.Metadata\<close> the binding reads \<open>SourceName\<close> and
  \<open>SourceVersion\<close>; \<open>Architecture\<close> is the field of that struct the binding does not
  read. \<open>Metadata\<close> is an \<^verbatim>\<open>any\<close>: either a \<^verbatim>\<open>*dpkg.Metadata\<close> or a value of
  another dynamic type (nil included), named here by a string. Pointers are taken to be
  non-nil, as the scanner returns them.
\<close>

datatype ScanStatusEnum =
  ScanStatusUnspecified | ScanStatusSucceeded | ScanStatusPartiallySucceeded | ScanStatusFailed

record ScanStatus =
  Status :: ScanStatusEnum
  FailureReason :: string

record dpkg_Metadata =
  dpkg_SourceName :: string
  dpkg_SourceVersion :: string
  dpkg_Architecture :: string

datatype metadata = is_dpkg: DpkgMetadata dpkg_Metadata | OtherMetadata string

record scalibr_Inventory =
  si_Name :: string
  si_Version :: string
  si_Metadata :: metadata

record ScanResult =
  sr_Status :: ScanStatus
  sr_Inventories :: "scalibr_Inventory list"

text \<open>
  A Go \<^verbatim>\<open>error\<close> is its message; \<^verbatim>\<open>fmt.Errorf\<close> with \<^verbatim>\<open>%s\<close> or \<^verbatim>\<open>%v\<close> appends the
  argument's text. A function that returns \<^verbatim>\<open>(T, error)\<close> with a zero \<^verbatim>\<open>T\<close> beside every
  error is a sum, \<open>Inl\<close> the error.

  \<^verbatim>\<open>
  func extractAdditionalFieldsDpkg(inventory *scalibr_extractor.Inventory, metadata *dpkg.Metadata) (extractors.Source, string, error) {
      source := extractors.Source{Name: metadata.SourceName, Version: metadata.SourceVersion}
      purl, err := dpkgExtractor.ToPURL(inventory)
      if err != nil {
          return extractors.Source{}, "", fmt.Errorf("unable to extract purl, %v", err)
      }
      return source, purl.String(), nil
  }
  \<close>
  \<open>toPURL\<close> is the library's \<^verbatim>\<open>dpkgExtractor.ToPURL\<close> followed by \<^verbatim>\<open>String()\<close>.
\<close>

definition extractAdditionalFieldsDpkg ::
  "(scalibr_Inventory \<Rightarrow> string + string) \<Rightarrow> scalibr_Inventory \<Rightarrow> dpkg_Metadata
     \<Rightarrow> string + (extractors_Source \<times> string)" where
  "extractAdditionalFieldsDpkg toPURL inventory metadata =
     (let source = \<lparr> es_Name = dpkg_SourceName metadata, es_Version = dpkg_SourceVersion metadata \<rparr>
      in case toPURL inventory of
           Inl err \<Rightarrow> Inl (''unable to extract purl, '' @ err)
         | Inr purl \<Rightarrow> Inr (source, purl))"

text \<open>
  \<^verbatim>\<open>
  func inventoryFrom(inventory *scalibr_extractor.Inventory) (extractors.Inventory, error) {
      item := extractors.Inventory{Name: inventory.Name, Version: inventory.Version}
      switch metadata := inventory.Metadata.(type) {
      case *dpkg.Metadata:
          source, purl, err := extractAdditionalFieldsDpkg(inventory, metadata)
          if err != nil {
              return extractors.Inventory{}, fmt.Errorf("unable to extract additional fields, err: %v", err)
          }
          item.Source = source
          item.Purl = purl
      default:
          return extractors.Inventory{}, fmt.Errorf("unsupported inventory item")
      }
      return item, nil
  }
  \<close>
\<close>

definition inventoryFrom ::
  "(scalibr_Inventory \<Rightarrow> string + string) \<Rightarrow> scalibr_Inventory \<Rightarrow> string + Inventory" where
  "inventoryFrom toPURL inventory =
     (let item = \<lparr> Inventory_Name = si_Name inventory, Inventory_Version = si_Version inventory,
                   Inventory_RawArch = [],
                   Inventory_Source = \<lparr> es_Name = [], es_Version = [] \<rparr>,
                   Inventory_Purl = [] \<rparr>
      in case si_Metadata inventory of
           DpkgMetadata metadata \<Rightarrow>
             (case extractAdditionalFieldsDpkg toPURL inventory metadata of
                Inl err \<Rightarrow> Inl (''unable to extract additional fields, err: '' @ err)
              | Inr (source, purl) \<Rightarrow>
                  Inr (item \<lparr> Inventory_Source := source, Inventory_Purl := purl \<rparr>))
         | OtherMetadata _ \<Rightarrow> Inl ''unsupported inventory item'')"

text \<open>
  \<^verbatim>\<open>
  func deconstructScanResult(results *scalibr.ScanResult) ([]extractors.Inventory, error) {
      inventories := make([]extractors.Inventory, 0, len(results.Inventories))
      scanStatus := results.Status
      if scanStatus.Status == scalibr_plugin.ScanStatusFailed {
          return nil, fmt.Errorf("scan failed, failure reason: %s", scanStatus.FailureReason)
      }
      for _, inv := range results.Inventories {
          item, err := inventoryFrom(inv)
          if err != nil {
              continue
          }
          inventories = append(inventories, item)
      }
      if scanStatus.Status != scalibr_plugin.ScanStatusSucceeded {
          return inventories, fmt.Errorf("scan partially failed, failure reason: %s", scanStatus.FailureReason)
      }
      return inventories, nil
  }
  \<close>
  The function returns a slice and an error side by side, so the result is a pair whose
  second component is \<open>None\<close> for a nil error. A nil slice is the empty list. The
  loop variable \<^verbatim>\<open>inv\<close> is \<open>scanned\<close>.
\<close>

fun deconstruct_loop ::
  "(scalibr_Inventory \<Rightarrow> string + string) \<Rightarrow> scalibr_Inventory list \<Rightarrow> Inventory list
     \<Rightarrow> Inventory list" where
  "deconstruct_loop toPURL [] inventories = inventories"
| "deconstruct_loop toPURL (scanned # invs) inventories =
     (case inventoryFrom toPURL scanned of
        Inl err \<Rightarrow> deconstruct_loop toPURL invs inventories
      | Inr item \<Rightarrow> deconstruct_loop toPURL invs (inventories @ [item]))"

definition deconstructScanResult ::
  "(scalibr_Inventory \<Rightarrow> string + string) \<Rightarrow> ScanResult \<Rightarrow> Inventory list \<times> string option" where
  "deconstructScanResult toPURL results =
     (let scanStatus = sr_Status results in
      if Status scanStatus = ScanStatusFailed
      then ([], Some (''scan failed, failure reason: '' @ FailureReason scanStatus))
      else
        let inventories = deconstruct_loop toPURL (sr_Inventories results) [] in
        if Status scanStatus \<noteq> ScanStatusSucceeded
        then (inventories,
              Some (''scan partially failed, failure reason: '' @ FailureReason scanStatus))
        else (inventories, None))"

text \<open>
  \<^verbatim>\<open>ExtractInventory\<close> builds the scan configuration (\<^verbatim>\<open>scalibrScanConfig\<close> returns a
  nil error on every input), runs the library's scan and passes its result to
  \<^verbatim>\<open>deconstructScanResult\<close>. \<open>scan\<close> is the library's scan of the extraction sources.
\<close>

definition ExtractInventory ::
  "(scalibr_Inventory \<Rightarrow> string + string) \<Rightarrow> ('src list \<Rightarrow> ScanResult) \<Rightarrow> 'src list
     \<Rightarrow> Inventory list \<times> string option" where
  "ExtractInventory toPURL scan extractionSources =
     deconstructScanResult toPURL (scan extractionSources)"

subsection \<open>The legacy path's record construction\<close>

text \<open>
  \<^verbatim>\<open>
  type packageMetadata struct {
      Package, Architecture, Version, Status, SourceName, SourceVersion string
  }
  func pkgInfoFromPackageMetadata(pm packageMetadata) *PkgInfo {
      return &PkgInfo{
          Name:    pm.Package,
          Arch:    osinfo.NormalizeArchitecture(pm.Architecture),
          Version: pm.Version,
          Source: Source{Name: pm.SourceName, Version: pm.SourceVersion},
      }
  }
  \<close>
  \<open>norm\<close> is \<^verbatim>\<open>osinfo.NormalizeArchitecture\<close>.
\<close>

record packageMetadata =
  pm_Package :: string
  pm_Architecture :: string
  pm_Version :: string
  pm_Status :: string
  pm_SourceName :: string
  pm_SourceVersion :: string



subsection \<open>A scan result to evaluate the extraction on\<close>

definition purl_of :: "scalibr_Inventory \<Rightarrow> string + string" where
  "purl_of inventory =
     (if si_Name inventory = [] then Inl ''package name is empty''
      else Inr (''pkg:deb/'' @ si_Name inventory @ ''@'' @ si_Version inventory))"

definition item_bar :: scalibr_Inventory where
  "item_bar = \<lparr> si_Name = ''bar'', si_Version = ''1.2.3-4'',
     si_Metadata = DpkgMetadata \<lparr> dpkg_SourceName = ''bar-src'', dpkg_SourceVersion = ''1.2.3'',
       dpkg_Architecture = ''noarch'' \<rparr> \<rparr>"

definition item_rpm :: scalibr_Inventory where
  "item_rpm = \<lparr> si_Name = ''foo'', si_Version = ''2.0'', si_Metadata = OtherMetadata ''*rpm.Metadata'' \<rparr>"

definition item_unnamed :: scalibr_Inventory where
  "item_unnamed = item_bar \<lparr> si_Name := [] \<rparr>"

definition inventory_bar :: Inventory where
  "inventory_bar = \<lparr> Inventory_Name = ''bar'', Inventory_Version = ''1.2.3-4'',
     Inventory_RawArch = [],
     Inventory_Source = \<lparr> es_Name = ''bar-src'', es_Version = ''1.2.3'' \<rparr>,
     Inventory_Purl = ''pkg:deb/bar@1.2.3-4'' \<rparr>"

section \<open>The comparison report (\<open>printComparisonResult\<close>)\<close>

text \<open>
  \<^verbatim>\<open>
  type comparisonResults struct {
      legacyExtractorItemsCount int `json:"extracted_items_count"`
      modernExtractorItemsCount    int `json:"extracted_items_count"`
      legacyExtractorExtra    []*PkgInfo `json:"legacy_extractor_extra"`
      modernExtractorExtra    []*PkgInfo `json:"new_extractor_extra"`
  }
  \<close>
  What \<^verbatim>\<open>encoding/json\<close> sees of a struct value by reflection: its fields in
  declaration order, each with its Go name, the \<open>json\<close> key of its tag and its value.
\<close>

record 'v structField =
  sf_Name :: string
  sf_Tag :: string
  sf_Value :: 'v

datatype fieldValue = IntValue int | PkgInfoSlice "PkgInfo list"

definition comparisonResults_fields :: "PkgInfo comparisonResults \<Rightarrow> fieldValue structField list" where
  "comparisonResults_fields report =
     [ \<lparr> sf_Name = ''legacyExtractorItemsCount'', sf_Tag = ''extracted_items_count'',
         sf_Value = IntValue (legacyExtractorItemsCount report) \<rparr>,
       \<lparr> sf_Name = ''modernExtractorItemsCount'', sf_Tag = ''extracted_items_count'',
         sf_Value = IntValue (modernExtractorItemsCount report) \<rparr>,
       \<lparr> sf_Name = ''legacyExtractorExtra'', sf_Tag = ''legacy_extractor_extra'',
         sf_Value = PkgInfoSlice (legacyExtractorExtra report) \<rparr>,
       \<lparr> sf_Name = ''modernExtractorExtra'', sf_Tag = ''new_extractor_extra'',
         sf_Value = PkgInfoSlice (modernExtractorExtra report) \<rparr> ]"

text \<open>
  The part of the Go standard library's \<^verbatim>\<open>encoding/json\<close> that decides which fields of a
  struct become members of the JSON object, after its documentation: only exported
  fields (the name starts with an upper-case letter) are encoded; a field tagged \<open>-\<close>
  is left out; the member's name is the tag's name, or the field's name where the tag
  gives none; and of several fields of one struct with the same member name, the single
  tagged one is kept, or none.
\<close>

definition isExported :: "string \<Rightarrow> bool" where
  "isExported name =
     (case name of [] \<Rightarrow> False
      | c # _ \<Rightarrow> (65::nat) \<le> of_char c \<and> of_char c \<le> (90::nat))"

definition tagName :: "string \<Rightarrow> string" where
  "tagName tag = takeWhile (\<lambda>c. c \<noteq> CHR '','') tag"

definition jsonName :: "'v structField \<Rightarrow> string" where
  "jsonName f = (if tagName (sf_Tag f) = [] then sf_Name f else tagName (sf_Tag f))"

definition dominant :: "'v structField list \<Rightarrow> 'v structField \<Rightarrow> bool" where
  "dominant candidates f =
     (let same = filter (\<lambda>g. jsonName g = jsonName f) candidates;
          tagged = filter (\<lambda>g. tagName (sf_Tag g) \<noteq> []) same
      in length same = 1 \<or> (tagName (sf_Tag f) \<noteq> [] \<and> length tagged = 1))"

definition typeFields :: "'v structField list \<Rightarrow> 'v structField list" where
  "typeFields sfields =
     (let candidates = filter (\<lambda>f. isExported (sf_Name f) \<and> sf_Tag f \<noteq> ''-'') sfields
      in filter (dominant candidates) candidates)"

text \<open>
  \<^verbatim>\<open>json.MarshalIndent(v, prefix, indent)\<close> of a struct (\<open>pfx\<close> is the prefix): the members are encoded in
  order and the first error ends the call; an object without members is \<open>{}\<close>,
  otherwise each member stands on a line of its own. \<open>enc\<close> is the library's encoding
  of a field's value at nesting depth one; it is a parameter.
\<close>

fun encode_members :: "('v \<Rightarrow> string + string) \<Rightarrow> 'v structField list \<Rightarrow> string + (string \<times> string) list" where
  "encode_members enc [] = Inr []"
| "encode_members enc (f # fs) =
     (case enc (sf_Value f) of
        Inl err \<Rightarrow> Inl err
      | Inr v \<Rightarrow>
          (case encode_members enc fs of
             Inl err \<Rightarrow> Inl err
           | Inr ms \<Rightarrow> Inr ((jsonName f, v) # ms)))"

fun join_members :: "string \<Rightarrow> string list \<Rightarrow> string" where
  "join_members sep [] = []"
| "join_members sep [m] = m"
| "join_members sep (m # ms) = m @ sep @ join_members sep ms"

definition MarshalIndent ::
  "('v \<Rightarrow> string + string) \<Rightarrow> 'v structField list \<Rightarrow> string \<Rightarrow> string \<Rightarrow> string + string" where
  "MarshalIndent enc sfields pfx indent =
     (case encode_members enc (typeFields sfields) of
        Inl err \<Rightarrow> Inl err
      | Inr [] \<Rightarrow> Inr ''{}''
      | Inr ms \<Rightarrow>
          Inr (''{'' @ [CHR 0x0A] @ pfx @ indent
               @ join_members ('','' @ [CHR 0x0A] @ pfx @ indent)
                   (map (\<lambda>(name, v). [CHR 0x22] @ name @ [CHR 0x22] @ '': '' @ v) ms)
               @ [CHR 0x0A] @ pfx @ ''}''))"

text \<open>
  \<^verbatim>\<open>
  func printComparisonResult(ctx context.Context, report comparisonResults) {
      raw, err := json.MarshalIndent(report, "", "    ")
      if err != nil {
          clog.Errorf(ctx, "unable comparisonResults, err - %v", err)
          return
      }
      clog.Infof(ctx, "Comparison results after inventory extraction")
      clog.Infof(ctx, string(raw))
  }
  \<close>
  The effect of the function is the sequence of its log calls.
\<close>

datatype log_call = Infof string | Errorf string string

definition printComparisonResult ::
  "(fieldValue \<Rightarrow> string + string) \<Rightarrow> PkgInfo comparisonResults \<Rightarrow> log_call list" where
  "printComparisonResult enc report =
     (case MarshalIndent enc (comparisonResults_fields report) [] ''    '' of
        Inl err \<Rightarrow> [Errorf ''unable comparisonResults, err - %v'' err]
      | Inr raw \<Rightarrow> [Infof ''Comparison results after inventory extraction'', Infof raw])"

text \<open>The same struct with exported field names, to compare with.\<close>

definition exported_fields :: "PkgInfo comparisonResults \<Rightarrow> fieldValue structField list" where
  "exported_fields report =
     [ \<lparr> sf_Name = ''LegacyExtractorItemsCount'', sf_Tag = ''legacy_items_count'',
         sf_Value = IntValue (legacyExtractorItemsCount report) \<rparr>,
       \<lparr> sf_Name = ''ModernExtractorItemsCount'', sf_Tag = ''new_items_count'',
         sf_Value = IntValue (modernExtractorItemsCount report) \<rparr> ]"

section \<open>The task queue (package \<open>tasker\<close>)\<close>

text \<open>
  \<^verbatim>\<open>
  var ( once sync.Once; tq = NewTaskQueue() )
  type task struct { run func(); name string }
  type TaskQueue struct { tc chan *task; wg sync.WaitGroup; mx sync.Mutex }
  func NewTaskQueue() *TaskQueue { q := &TaskQueue{tc: make(chan *task)}; return q }
  \<close>
  The queue is used by several goroutines at once, so the model is a transition system:
  a state of the queue and of every goroutine, and one step per statement of the code.
  A task is its name and the identity of its action; running the action is recorded in
  the state, and the action is taken to return and not to call the queue itself.
\<close>

record task =
  name :: string
  run :: nat

text \<open>
  A client goroutine makes a sequence of calls of the package-level functions
  \<^verbatim>\<open>Enqueue(ctx, name, f)\<close> and \<^verbatim>\<open>Close()\<close>, one after the other.
\<close>

datatype call = Enqueue task | Close

text \<open>
  Where a client stands: between two calls, or before one of the statements of
  \<^verbatim>\<open>
  func Enqueue(ctx context.Context, name string, f func()) {
      once.Do(func() { go tq.Loop(ctx) })          // Enqueue_once
      tq.Enqueue(ctx, name, f)
  }
  func (tq *TaskQueue) Enqueue(ctx context.Context, name string, f func()) {
      tq.mx.Lock()                                  // Enqueue_Lock
      tq.tc <- &task{name: name, run: f}            // Enqueue_send
      tq.mx.Unlock()                                // Enqueue_Unlock
  }
  func Close() { tq.Close() }
  func (tq *TaskQueue) Close() {
      tq.mx.Lock()                                  // Close_Lock
      close(tq.tc)                                  // Close_close
      tq.wg.Wait()                                  // Close_Wait
  }
  \<close>
  \<open>script\<close> holds the calls the client has still to make and \<open>returned\<close> the calls
  that have returned, in order.
\<close>

datatype cpc =
  Idle
| Enqueue_once task
| Enqueue_Lock task
| Enqueue_send task
| Enqueue_Unlock task
| Close_Lock
| Close_close
| Close_Wait

record client =
  pc :: cpc
  script :: "call list"
  returned :: "call list"

text \<open>
  Where a worker stands in
  \<^verbatim>\<open>
  func (tq *TaskQueue) Loop(ctx context.Context) {
      tq.wg.Add(1)                                  // Loop_Add
      defer tq.wg.Done()                            // Loop_Done, on leaving the loop
      for t := range tq.tc {                        // Loop_range
          clog.Debugf(ctx, "Tasker running %q.", t.name)
          t.run()                                   // Loop_run t
          clog.Debugf(ctx, "Finished task %q.", t.name)
          if agentconfig.FreeOSMemory() { debug.FreeOSMemory() }
          clog.Debugf(ctx, "Waiting for tasks to run.")
      }
  }
  \<close>
  The log lines and the memory hint do not touch the queue.
\<close>

datatype wpc = Loop_Add | Loop_range | Loop_run task | Loop_Done | Loop_exited

text \<open>
  The state: \<open>once_done\<close> is \<^verbatim>\<open>once\<close>, \<open>mx\<close> says whether \<^verbatim>\<open>tq.mx\<close> is locked,
  \<open>tc_closed\<close> whether the channel \<^verbatim>\<open>tq.tc\<close> is closed, \<open>wg\<close> is the counter of
  \<^verbatim>\<open>tq.wg\<close>. \<open>workers\<close> holds one entry for every goroutine that runs \<^verbatim>\<open>Loop\<close>.
  \<open>received\<close> lists the tasks taken from the channel and \<open>finished\<close> the tasks whose
  action has returned, both in order. \<open>panicked\<close> says that a goroutine has panicked,
  which ends a Go program.
\<close>

record queue_state =
  once_done :: bool
  mx :: bool
  tc_closed :: bool
  wg :: nat
  clients :: "client list"
  workers :: "wpc list"
  received :: "task list"
  finished :: "task list"
  panicked :: bool

datatype tid = Client nat | Worker nat

text \<open>
  The state after \<^verbatim>\<open>NewTaskQueue()\<close>, with one client for every list of calls.
\<close>

definition NewTaskQueue :: "call list list \<Rightarrow> queue_state" where
  "NewTaskQueue scripts =
     \<lparr> once_done = False, mx = False, tc_closed = False, wg = 0,
       clients = map (\<lambda>sc. \<lparr> pc = Idle, script = sc, returned = [] \<rparr>) scripts,
       workers = [], received = [], finished = [], panicked = False \<rparr>"

text \<open>
  The channel is unbuffered: a send completes together with a receive. The first
  client that stands at the send statement, if any:
\<close>

fun find_sender :: "client list \<Rightarrow> (nat \<times> task) option" where
  "find_sender [] = None"
| "find_sender (c # cs) =
     (case pc c of
        Enqueue_send t \<Rightarrow> Some (0, t)
      | _ \<Rightarrow> map_option (\<lambda>(i, t). (Suc i, t)) (find_sender cs))"

text \<open>
  One step of client \<open>i\<close>; \<open>None\<close> where the client cannot move (it is blocked, it has
  no call left, or the program has panicked).
  \<^item> \<^verbatim>\<open>once.Do\<close> starts the worker goroutine the first time it is reached.
  \<^item> \<^verbatim>\<open>Lock\<close> blocks while the mutex is locked.
  \<^item> A send blocks until a worker receives (that is the worker's step below); a send on
    a closed channel panics.
  \<^item> \<^verbatim>\<open>close\<close> of a closed channel panics.
  \<^item> \<^verbatim>\<open>Wait\<close> blocks until the counter is zero.
\<close>

definition step_client :: "nat \<Rightarrow> queue_state \<Rightarrow> queue_state option" where
  "step_client i s =
     (if panicked s \<or> length (clients s) \<le> i then None
      else
        let c = clients s ! i;
            goto = (\<lambda>p s'. s' \<lparr> clients := (clients s')[i := c \<lparr> pc := p \<rparr>] \<rparr>)
        in case pc c of
             Idle \<Rightarrow>
               (case script c of
                  [] \<Rightarrow> None
                | Enqueue t # rest \<Rightarrow>
                    Some (s \<lparr> clients := (clients s)[i := c \<lparr> pc := Enqueue_once t, script := rest \<rparr>] \<rparr>)
                | Close # rest \<Rightarrow>
                    Some (s \<lparr> clients := (clients s)[i := c \<lparr> pc := Close_Lock, script := rest \<rparr>] \<rparr>))
           | Enqueue_once t \<Rightarrow>
               (if once_done s then Some (goto (Enqueue_Lock t) s)
                else Some (goto (Enqueue_Lock t)
                             (s \<lparr> once_done := True, workers := workers s @ [Loop_Add] \<rparr>)))
           | Enqueue_Lock t \<Rightarrow>
               (if mx s then None else Some (goto (Enqueue_send t) (s \<lparr> mx := True \<rparr>)))
           | Enqueue_send t \<Rightarrow>
               (if tc_closed s then Some (s \<lparr> panicked := True \<rparr>) else None)
           | Enqueue_Unlock t \<Rightarrow>
               Some (s \<lparr> mx := False,
                         clients := (clients s)[i := c \<lparr> pc := Idle, returned := returned c @ [Enqueue t] \<rparr>] \<rparr>)
           | Close_Lock \<Rightarrow>
               (if mx s then None else Some (goto Close_close (s \<lparr> mx := True \<rparr>)))
           | Close_close \<Rightarrow>
               (if tc_closed s then Some (s \<lparr> panicked := True \<rparr>)
                else Some (goto Close_Wait (s \<lparr> tc_closed := True \<rparr>)))
           | Close_Wait \<Rightarrow>
               (if wg s = 0
                then Some (s \<lparr> clients := (clients s)[i := c \<lparr> pc := Idle, returned := returned c @ [Close] \<rparr>] \<rparr>)
                else None))"

text \<open>
  One step of worker \<open>j\<close>. At the \<open>range\<close> statement the worker leaves the loop when
  the channel is closed, takes the task of a client that stands at the send statement,
  or blocks. \<^verbatim>\<open>Done\<close> on a zero counter panics.
\<close>

definition step_worker :: "nat \<Rightarrow> queue_state \<Rightarrow> queue_state option" where
  "step_worker j s =
     (if panicked s \<or> length (workers s) \<le> j then None
      else case workers s ! j of
             Loop_Add \<Rightarrow> Some (s \<lparr> wg := wg s + 1, workers := (workers s)[j := Loop_range] \<rparr>)
           | Loop_range \<Rightarrow>
               (if tc_closed s then Some (s \<lparr> workers := (workers s)[j := Loop_Done] \<rparr>)
                else case find_sender (clients s) of
                       None \<Rightarrow> None
                     | Some (i, t) \<Rightarrow>
                         Some (s \<lparr> clients := (clients s)[i := (clients s ! i) \<lparr> pc := Enqueue_Unlock t \<rparr>],
                                   workers := (workers s)[j := Loop_run t],
                                   received := received s @ [t] \<rparr>))
           | Loop_run t \<Rightarrow>
               Some (s \<lparr> workers := (workers s)[j := Loop_range], finished := finished s @ [t] \<rparr>)
           | Loop_Done \<Rightarrow>
               (if wg s = 0 then Some (s \<lparr> panicked := True \<rparr>)
                else Some (s \<lparr> wg := wg s - 1, workers := (workers s)[j := Loop_exited] \<rparr>))
           | Loop_exited \<Rightarrow> None)"

fun step :: "tid \<Rightarrow> queue_state \<Rightarrow> queue_state option" where
  "step (Client i) s = step_client i s"
| "step (Worker j) s = step_worker j s"

text \<open>
  A schedule is the sequence in which the goroutines are given a turn; a goroutine that
  cannot move when it gets its turn leaves the state as it is. The states the queue can
  reach are the states \<open>exec sched (NewTaskQueue scripts)\<close>.
\<close>

fun exec :: "tid list \<Rightarrow> queue_state \<Rightarrow> queue_state" where
  "exec [] s = s"
| "exec (t # ts) s = (case step t s of None \<Rightarrow> exec ts s | Some s' \<Rightarrow> exec ts s')"

text \<open>A state is terminal when no goroutine can move.\<close>

definition threads :: "queue_state \<Rightarrow> tid list" where
  "threads s = map Client [0..<length (clients s)] @ map Worker [0..<length (workers s)]"

definition terminal :: "queue_state \<Rightarrow> bool" where
  "terminal s = list_all (\<lambda>t. step t s = None) (threads s)"

subsection \<open>Invariants of the queue\<close>

text \<open>
  The positions at which a client holds the mutex, the positions after \<^verbatim>\<open>once.Do\<close>,
  the positions at which a worker is counted by the wait group, and the task the
  workers are running.
\<close>

definition holds_mx :: "cpc \<Rightarrow> bool" where
  "holds_mx p = (case p of Enqueue_send t \<Rightarrow> True | Enqueue_Unlock t \<Rightarrow> True
                 | Close_close \<Rightarrow> True | _ \<Rightarrow> False)"

definition past_once :: "cpc \<Rightarrow> bool" where
  "past_once p = (case p of Enqueue_Lock t \<Rightarrow> True | Enqueue_send t \<Rightarrow> True
                  | Enqueue_Unlock t \<Rightarrow> True | _ \<Rightarrow> False)"

definition counted :: "wpc \<Rightarrow> bool" where
  "counted w = (case w of Loop_range \<Rightarrow> True | Loop_run t \<Rightarrow> True | Loop_Done \<Rightarrow> True
                | _ \<Rightarrow> False)"

definition running :: "wpc list \<Rightarrow> task list" where
  "running ws = concat (map (\<lambda>w. case w of Loop_run t \<Rightarrow> [t] | _ \<Rightarrow> []) ws)"

text \<open>
  The mutex is held by at most one client, and never released once the channel is
  closed; there is at most one worker, started by \<^verbatim>\<open>once\<close>; the counter of the wait
  group counts the workers between \<^verbatim>\<open>Add\<close> and \<^verbatim>\<open>Done\<close>; the tasks received are
  the finished ones and the running one; a worker leaves the loop only on a closed
  channel; the task of a call that has returned was received; a \<^verbatim>\<open>Close\<close> past its
  \<^verbatim>\<open>close\<close> statement has closed the channel, and once one has returned no task is
  running.
\<close>

definition lock_inv :: "queue_state \<Rightarrow> bool" where
  "lock_inv s =
     ((\<forall>i<length (clients s). holds_mx (pc (clients s ! i)) \<longrightarrow>
          mx s \<and> \<not> tc_closed s
          \<and> (\<forall>j<length (clients s). holds_mx (pc (clients s ! j)) \<longrightarrow> j = i))
      \<and> (tc_closed s \<longrightarrow> mx s)
      \<and> (mx s \<longrightarrow> tc_closed s \<or> (\<exists>i<length (clients s). holds_mx (pc (clients s ! i)))))"

definition worker_inv :: "queue_state \<Rightarrow> bool" where
  "worker_inv s =
     (length (workers s) \<le> 1
      \<and> (once_done s \<longleftrightarrow> workers s \<noteq> [])
      \<and> wg s = length (filter counted (workers s))
      \<and> received s = finished s @ running (workers s)
      \<and> (\<forall>w\<in>set (workers s). w = Loop_Done \<or> w = Loop_exited \<longrightarrow> tc_closed s))"

definition client_inv :: "queue_state \<Rightarrow> bool" where
  "client_inv s =
     (\<forall>i<length (clients s).
        (past_once (pc (clients s ! i)) \<longrightarrow> once_done s)
        \<and> (\<forall>t. Enqueue t \<in> set (returned (clients s ! i)) \<or> pc (clients s ! i) = Enqueue_Unlock t
               \<longrightarrow> t \<in> set (received s))
        \<and> (Close \<in> set (returned (clients s ! i)) \<or> pc (clients s ! i) = Close_Wait
               \<longrightarrow> tc_closed s))"

definition close_inv :: "queue_state \<Rightarrow> bool" where
  "close_inv s =
     ((\<exists>i<length (clients s). Close \<in> set (returned (clients s ! i)))
        \<longrightarrow> running (workers s) = [])"

definition queue_inv :: "queue_state \<Rightarrow> bool" where
  "queue_inv s = (\<not> panicked s \<and> lock_inv s \<and> worker_inv s \<and> client_inv s \<and> close_inv s)"

text \<open>
  For a single client that only enqueues: the tasks not yet handed to the worker, in
  order, and the invariant that the tasks received followed by those are the tasks
  submitted.
\<close>

fun enqueued :: "call list \<Rightarrow> task list" where
  "enqueued [] = []"
| "enqueued (Enqueue t # cs) = t # enqueued cs"
| "enqueued (Close # cs) = enqueued cs"

definition pending :: "client \<Rightarrow> task list" where
  "pending c =
     (case pc c of Enqueue_once t \<Rightarrow> [t] | Enqueue_Lock t \<Rightarrow> [t] | Enqueue_send t \<Rightarrow> [t]
      | _ \<Rightarrow> [])
     @ enqueued (script c)"

definition closing_pc :: "cpc \<Rightarrow> bool" where
  "closing_pc p = (p = Close_Lock \<or> p = Close_close \<or> p = Close_Wait)"

definition fifo_inv :: "task list \<Rightarrow> queue_state \<Rightarrow> bool" where
  "fifo_inv ts s =
     (length (clients s) = 1
      \<and> Close \<notin> set (script (clients s ! 0))
      \<and> \<not> closing_pc (pc (clients s ! 0))
      \<and> \<not> tc_closed s
      \<and> received s @ pending (clients s ! 0) = ts)"

text \<open>A measure that every step decreases.\<close>

definition client_weight :: "client \<Rightarrow> nat" where
  "client_weight c =
     12 * length (script c)
     + (case pc c of Idle \<Rightarrow> 0 | Enqueue_once t \<Rightarrow> 11 | Enqueue_Lock t \<Rightarrow> 6
        | Enqueue_send t \<Rightarrow> 5 | Enqueue_Unlock t \<Rightarrow> 1 | Close_Lock \<Rightarrow> 3 | Close_close \<Rightarrow> 2
        | Close_Wait \<Rightarrow> 1)"

definition worker_weight :: "wpc \<Rightarrow> nat" where
  "worker_weight w =
     (case w of Loop_Add \<Rightarrow> 4 | Loop_range \<Rightarrow> 2 | Loop_run t \<Rightarrow> 3 | Loop_Done \<Rightarrow> 1
      | Loop_exited \<Rightarrow> 0)"

definition weight :: "queue_state \<Rightarrow> nat" where
  "weight s =
     (if panicked s then 0
      else 1 + sum_list (map client_weight (clients s)) + sum_list (map worker_weight (workers s)))"

text \<open>
  \<open>handed k t s\<close>: client \<open>k\<close> has enqueued task \<open>t\<close> (the call has returned) or is
  in the middle of handing it off (it holds the mutex, at the send or just after it).
  \<open>Close_returned s\<close>: a call of \<^verbatim>\<open>Close\<close> has returned. \<open>Close_has_mutex s\<close>: a call of
  \<^verbatim>\<open>Close\<close> has passed its \<^verbatim>\<open>Lock\<close> statement. \<open>waiting i t r s\<close>: client \<open>i\<close> is in
  a call \<^verbatim>\<open>Enqueue\<close> of task \<open>t\<close> that has not passed its \<^verbatim>\<open>Lock\<close> statement, and \<open>r\<close>
  are the calls of that client that have returned.
\<close>

definition handed :: "nat \<Rightarrow> task \<Rightarrow> queue_state \<Rightarrow> bool" where
  "handed k t s =
     (k < length (clients s)
      \<and> (pc (clients s ! k) = Enqueue_send t \<or> pc (clients s ! k) = Enqueue_Unlock t
         \<or> Enqueue t \<in> set (returned (clients s ! k))))"

definition Close_returned :: "queue_state \<Rightarrow> bool" where
  "Close_returned s = list_ex (\<lambda>c. Close \<in> set (returned c)) (clients s)"




subsection \<open>Schedules to evaluate the queue on\<close>

definition t0 :: task where "t0 = \<lparr> name = ''t0'', run = 0 \<rparr>"

definition t1 :: task where "t1 = \<lparr> name = ''t1'', run = 1 \<rparr>"


text \<open>One client enqueues \<open>t0\<close> and \<open>t1\<close>.\<close>

definition fifo_schedule :: "tid list" where
  "fifo_schedule =
     [Client 0, Client 0, Client 0, Worker 0, Worker 0, Client 0,
      Client 0, Client 0, Client 0, Worker 0, Worker 0, Client 0, Worker 0]"




text \<open>
  Client 0 enqueues \<open>t0\<close>, client 1 calls \<^verbatim>\<open>Close\<close> while client 0 stands at the send.
\<close>

definition close_queue :: queue_state where
  "close_queue = NewTaskQueue [[Enqueue t0], [Close]]"

definition close_before :: "tid list" where
  "close_before = [Client 0, Client 0, Client 0, Client 1]"

definition close_after :: "tid list" where
  "close_after =
     [Worker 0, Worker 0, Client 0, Client 1, Client 1, Client 1, Worker 0, Worker 0, Worker 0,
      Client 1]"




section \<open>Facts about the index and the loops\<close>

lemma extra_loop_eq:
  "extra_loop other es extra = extra @ map snd (filter (\<lambda>e. map_of other (fst e) = None) es)"
  by (induction other es extra rule: extra_loop.induct) auto



lemma indexByKey_loop_map_of:
  "map_of (indexByKey_loop kf results pkgs) =
     map_of results ++ map_of (rev (map (\<lambda>p. (kf p, p)) pkgs))"
proof (induction kf results pkgs rule: indexByKey_loop.induct)
  case (1 kf results)
  then show ?case by simp
next
  case (2 kf results pkg pkgs)
  have "map_of (AList.update (kf pkg) pkg results) ++ map_of (rev (map (\<lambda>p. (kf p, p)) pkgs)) =
        map_of results ++ map_of (rev (map (\<lambda>p. (kf p, p)) pkgs) @ [(kf pkg, pkg)])"
    by (simp add: update_conv' map_add_upd_left fun_eq_iff map_add_def split: option.splits)
  with 2 show ?case by simp
qed

lemma indexByKey_map_of:
  "map_of (indexByKey kf pkgs) = map_of (rev (map (\<lambda>p. (kf p, p)) pkgs))"
  by (simp add: indexByKey_def indexByKey_loop_map_of)

lemma indexByKey_dom: "dom (map_of (indexByKey kf pkgs)) = kf ` set pkgs"
  by (simp add: indexByKey_map_of dom_map_of_conv_image_fst image_image)


lemma indexByKey_None_iff: "map_of (indexByKey kf pkgs) k = None \<longleftrightarrow> k \<notin> kf ` set pkgs"
  using indexByKey_dom [of kf pkgs] by (metis domIff)


lemma rangeOrder_set: "rangeOrder ord \<Longrightarrow> set (ord m) = set m"
  unfolding rangeOrder_def by (metis set_mset_mset)

lemma rangeOrder_id: "rangeOrder (\<lambda>m. m)"
  by (simp add: rangeOrder_def)

lemma rangeOrder_rev: "rangeOrder rev"
  by (simp add: rangeOrder_def)

lemma legacyExtra_eq:
  "legacyExtractorExtra (compareExtractedPackages kf ord1 ord2 A B) =
     map snd (filter (\<lambda>e. fst e \<notin> kf ` set B) (ord1 (indexByKey kf A)))"
  by (simp add: compareExtractedPackages_def Let_def extra_loop_eq indexByKey_None_iff)

lemma modernExtra_eq:
  "modernExtractorExtra (compareExtractedPackages kf ord1 ord2 A B) =
     map snd (filter (\<lambda>e. fst e \<notin> kf ` set A) (ord2 (indexByKey kf B)))"
  by (simp add: compareExtractedPackages_def Let_def extra_loop_eq indexByKey_None_iff)

lemma legacyExtra_mset:
  "rangeOrder ord1 \<Longrightarrow>
   mset (legacyExtractorExtra (compareExtractedPackages kf ord1 ord2 A B)) =
     image_mset snd (filter_mset (\<lambda>e. fst e \<notin> kf ` set B) (mset (indexByKey kf A)))"
  unfolding rangeOrder_def by (simp add: legacyExtra_eq)

lemma modernExtra_mset:
  "rangeOrder ord2 \<Longrightarrow>
   mset (modernExtractorExtra (compareExtractedPackages kf ord1 ord2 A B)) =
     image_mset snd (filter_mset (\<lambda>e. fst e \<notin> kf ` set A) (mset (indexByKey kf B)))"
  unfolding rangeOrder_def by (simp add: modernExtra_eq)

lemma legacyExtra_set:
  "rangeOrder ord1 \<Longrightarrow>
   set (legacyExtractorExtra (compareExtractedPackages kf ord1 ord2 A B)) =
     snd ` {e \<in> set (indexByKey kf A). fst e \<notin> kf ` set B}"
  by (simp add: legacyExtra_eq rangeOrder_set)

lemma modernExtra_set:
  "rangeOrder ord2 \<Longrightarrow>
   set (modernExtractorExtra (compareExtractedPackages kf ord1 ord2 A B)) =
     snd ` {e \<in> set (indexByKey kf B). fst e \<notin> kf ` set A}"
  by (simp add: modernExtra_eq rangeOrder_set)




lemma key_a_b: "key pkg_a \<noteq> key pkg_b"
  by (simp add: key_def pkg_a_def pkg_b_def)

lemma key_a_raw: "key pkg_a_raw = key pkg_a"
  by (simp add: key_def pkg_a_raw_def)


lemma index_a: "indexByKey key [pkg_a] = [(key pkg_a, pkg_a)]"
  by (simp add: indexByKey_def)

lemma index_a_b: "indexByKey key [pkg_a, pkg_b] = [(key pkg_a, pkg_a), (key pkg_b, pkg_b)]"
  using key_a_b by (simp add: indexByKey_def)

lemma index_a_a_raw: "indexByKey key [pkg_a, pkg_a_raw] = [(key pkg_a, pkg_a_raw)]"
  by (simp add: indexByKey_def key_a_raw)


lemma mset_single_list: "mset xs = {#x#} \<Longrightarrow> xs = [x]"
  by (metis mset_single_iff_right)

section \<open>Claims about the reconciliation\<close>

text \<open>
  C5. The two counts of \<open>compareExtractedPackages\<close> are the lengths of its two input
  lists, whatever the key function and the iteration orders; they are not the sizes of
  the indexes: the inventory \<open>[pkg_a, pkg_a_raw]\<close> has count 2 and an index of one
  entry. On legacy \<open>[{a,x86_64,1.0}]\<close> and modern \<open>[{a,x86_64,1.0},{b,noarch,2.0}]\<close>
  the result is legacy-extra \<open>[]\<close>, modern-extra \<open>[{b,noarch,2.0}]\<close>, legacy-count 1
  and modern-count 2, for every order in which the two maps are ranged over.
\<close>

theorem compare_counts_are_input_lengths:
  assumes "rangeOrder ord1" and "rangeOrder ord2"
  shows "legacyExtractorItemsCount (compareExtractedPackages kf o1 o2 A B) = int (length A)
       \<and> modernExtractorItemsCount (compareExtractedPackages kf o1 o2 A B) = int (length B)
       \<and> compareExtractedPackages key ord1 ord2 [pkg_a] [pkg_a, pkg_b] =
           \<lparr> legacyExtractorItemsCount = 1, modernExtractorItemsCount = 2,
             legacyExtractorExtra = [], modernExtractorExtra = [pkg_b] \<rparr>
       \<and> length (indexByKey key [pkg_a, pkg_a_raw]) = 1
       \<and> legacyExtractorItemsCount
           (compareExtractedPackages key ord1 ord2 [pkg_a, pkg_a_raw] []) = 2"
proof -
  let ?r = "compareExtractedPackages key ord1 ord2 [pkg_a] [pkg_a, pkg_b]"
  have "mset (legacyExtractorExtra ?r) = {#}"
    using key_a_b by (simp add: legacyExtra_mset [OF assms(1)] index_a)
  then have l: "legacyExtractorExtra ?r = []" by simp
  have "mset (modernExtractorExtra ?r) = {#pkg_b#}"
    using key_a_b by (simp add: modernExtra_mset [OF assms(2)] index_a_b)
  then have m: "modernExtractorExtra ?r = [pkg_b]" by (rule mset_single_list)
  have c: "legacyExtractorItemsCount ?r = 1" "modernExtractorItemsCount ?r = 2"
    by (simp_all add: compareExtractedPackages_def Let_def)
  have ex: "?r = \<lparr> legacyExtractorItemsCount = 1, modernExtractorItemsCount = 2,
             legacyExtractorExtra = [], modernExtractorExtra = [pkg_b] \<rparr>"
    using l m c by (cases ?r) simp
  have n: "legacyExtractorItemsCount (compareExtractedPackages kf o1 o2 A B) = int (length A)"
      "modernExtractorItemsCount (compareExtractedPackages kf o1 o2 A B) = int (length B)"
    by (simp_all add: compareExtractedPackages_def Let_def)
  have d: "length (indexByKey key [pkg_a, pkg_a_raw]) = 1"
    by (simp add: index_a_a_raw)
  have d2: "legacyExtractorItemsCount
           (compareExtractedPackages key ord1 ord2 [pkg_a, pkg_a_raw] []) = 2"
    by (simp add: compareExtractedPackages_def Let_def)
  from n ex d d2 show ?thesis by simp
qed

theorem compare_counts_are_input_lengths_witness:
  "rangeOrder (\<lambda>m :: ((string \<times> string \<times> string) \<times> PkgInfo) list. m)
   \<and> rangeOrder (rev :: ((string \<times> string \<times> string) \<times> PkgInfo) list \<Rightarrow> _)
   \<and> compareExtractedPackages key (\<lambda>m. m) rev [pkg_a] [pkg_a, pkg_b] =
           \<lparr> legacyExtractorItemsCount = 1, modernExtractorItemsCount = 2,
             legacyExtractorExtra = [], modernExtractorExtra = [pkg_b] \<rparr>
   \<and> legacyExtractorItemsCount (compareExtractedPackages key (\<lambda>m. m) rev [pkg_a, pkg_a_raw] []) = 2"
  using compare_counts_are_input_lengths [OF rangeOrder_id rangeOrder_rev]
    rangeOrder_id rangeOrder_rev by blast

text \<open>
  C6. For all inventories \<open>A\<close> and \<open>B\<close>, the legacy-extra of \<open>Compare(A, B)\<close> and the
  modern-extra of \<open>Compare(B, A)\<close> hold the same records, whatever the orders in which
  the four loops range over their maps (even with the same multiplicities).
\<close>

theorem compare_symmetric:
  assumes "rangeOrder ord1" and "rangeOrder ord2" and "rangeOrder ord3" and "rangeOrder ord4"
  shows "set (legacyExtractorExtra (compareExtractedPackages kf ord1 ord2 A B)) =
         set (modernExtractorExtra (compareExtractedPackages kf ord3 ord4 B A))
       \<and> mset (legacyExtractorExtra (compareExtractedPackages kf ord1 ord2 A B)) =
         mset (modernExtractorExtra (compareExtractedPackages kf ord3 ord4 B A))"
  by (simp add: legacyExtra_set [OF assms(1)] modernExtra_set [OF assms(4)]
      legacyExtra_mset [OF assms(1)] modernExtra_mset [OF assms(4)])

theorem compare_symmetric_witness:
  "rangeOrder (\<lambda>m :: ((string \<times> string \<times> string) \<times> PkgInfo) list. m)
   \<and> rangeOrder (rev :: ((string \<times> string \<times> string) \<times> PkgInfo) list \<Rightarrow> _)
   \<and> set (legacyExtractorExtra (compareExtractedPackages key (\<lambda>m. m) rev [pkg_a, pkg_b] [pkg_a])) =
     set (modernExtractorExtra (compareExtractedPackages key rev (\<lambda>m. m) [pkg_a] [pkg_a, pkg_b]))
   \<and> set (modernExtractorExtra (compareExtractedPackages key rev (\<lambda>m. m) [pkg_a] [pkg_a, pkg_b]))
       = {pkg_b}"
proof -
  have "set (modernExtractorExtra (compareExtractedPackages key rev (\<lambda>m. m) [pkg_a] [pkg_a, pkg_b]))
       = {pkg_b}"
    using key_a_b by (simp add: modernExtra_eq index_a_b)
  then show ?thesis
    using compare_symmetric [OF rangeOrder_id rangeOrder_rev rangeOrder_rev rangeOrder_id,
        of key "[pkg_a, pkg_b]" "[pkg_a]"] rangeOrder_id rangeOrder_rev
    by blast
qed




section \<open>Claims about the structured extraction\<close>

lemma deconstruct_loop_eq:
  "deconstruct_loop toPURL invs inventories =
     inventories @ List.map_filter
       (\<lambda>scanned. case inventoryFrom toPURL scanned of Inl err \<Rightarrow> None | Inr item \<Rightarrow> Some item) invs"
  by (induction toPURL invs inventories rule: deconstruct_loop.induct)
     (auto split: sum.splits)

lemma map_filter_append:
  "List.map_filter f (xs @ ys) = List.map_filter f xs @ List.map_filter f ys"
  by (simp add: List.map_filter_def)

lemma inventoryFrom_bar: "inventoryFrom purl_of item_bar = Inr inventory_bar"
  by (simp add: inventoryFrom_def extractAdditionalFieldsDpkg_def purl_of_def item_bar_def
      inventory_bar_def)

lemma inventoryFrom_rpm: "inventoryFrom purl_of item_rpm = Inl ''unsupported inventory item''"
  by (simp add: inventoryFrom_def item_rpm_def)

lemma inventoryFrom_unnamed:
  "inventoryFrom purl_of item_unnamed =
     Inl ''unable to extract additional fields, err: unable to extract purl, package name is empty''"
  by (simp add: inventoryFrom_def extractAdditionalFieldsDpkg_def purl_of_def item_unnamed_def
      item_bar_def)

text \<open>
  C4. On a scan whose status is failed, the extraction returns no record and the
  error \<open>scan failed\<close>. On every other status it returns, in the scan's order, the
  records of the items that \<open>inventoryFrom\<close> maps, and leaves out each item it does not
  map; the error depends on the status alone: none on success, \<open>scan partially failed\<close>
  otherwise. So an item that cannot be mapped never fails the extraction. The last
  two conjuncts evaluate a partially failed scan and a failed scan of four items, of
  which the second has a foreign metadata kind and the third no package URL.
\<close>

theorem deconstructScanResult_partial_results:
  "ExtractInventory toPURL scan sources = deconstructScanResult toPURL (scan sources)
   \<and> deconstructScanResult toPURL results =
     (if Status (sr_Status results) = ScanStatusFailed
      then ([], Some (''scan failed, failure reason: '' @ FailureReason (sr_Status results)))
      else (List.map_filter
              (\<lambda>scanned. case inventoryFrom toPURL scanned of Inl err \<Rightarrow> None | Inr item \<Rightarrow> Some item)
              (sr_Inventories results),
            if Status (sr_Status results) = ScanStatusSucceeded then None
            else Some (''scan partially failed, failure reason: ''
                        @ FailureReason (sr_Status results))))
   \<and> deconstructScanResult purl_of
       \<lparr> sr_Status = \<lparr> Status = ScanStatusPartiallySucceeded, FailureReason = ''timeout'' \<rparr>,
         sr_Inventories = [item_bar, item_rpm, item_unnamed, item_bar] \<rparr> =
       ([inventory_bar, inventory_bar], Some ''scan partially failed, failure reason: timeout'')
   \<and> deconstructScanResult purl_of
       \<lparr> sr_Status = \<lparr> Status = ScanStatusFailed, FailureReason = ''timeout'' \<rparr>,
         sr_Inventories = [item_bar, item_rpm, item_unnamed, item_bar] \<rparr> =
       ([], Some ''scan failed, failure reason: timeout'')"
  by (simp add: ExtractInventory_def deconstructScanResult_def Let_def deconstruct_loop_eq
      inventoryFrom_bar inventoryFrom_rpm inventoryFrom_unnamed)

text \<open>
  C10. \<open>inventoryFrom\<close> returns the error \<open>unsupported inventory item\<close> for every item
  whose metadata is not dpkg metadata, and the extraction result is the one of the scan
  without that item. \<open>inventoryFrom\<close> returns a record exactly for the items with dpkg
  metadata whose package URL can be built.
\<close>

theorem inventoryFrom_unsupported_metadata:
  "inventoryFrom toPURL (inventory \<lparr> si_Metadata := OtherMetadata kind \<rparr>) =
     Inl ''unsupported inventory item''
   \<and> deconstructScanResult toPURL
       (results \<lparr> sr_Inventories := before @ [inventory \<lparr> si_Metadata := OtherMetadata kind \<rparr>] @ after \<rparr>)
     = deconstructScanResult toPURL (results \<lparr> sr_Inventories := before @ after \<rparr>)
   \<and> isl (inventoryFrom toPURL inventory) =
       (\<not> (is_dpkg (si_Metadata inventory) \<and> \<not> isl (toPURL inventory)))"
proof -
  have u: "inventoryFrom toPURL (inventory \<lparr> si_Metadata := OtherMetadata kind \<rparr>) =
     Inl ''unsupported inventory item''"
    by (simp add: inventoryFrom_def)
  have d: "deconstructScanResult toPURL
       (results \<lparr> sr_Inventories := before @ [inventory \<lparr> si_Metadata := OtherMetadata kind \<rparr>] @ after \<rparr>)
     = deconstructScanResult toPURL (results \<lparr> sr_Inventories := before @ after \<rparr>)"
    by (simp add: deconstructScanResult_def Let_def deconstruct_loop_eq map_filter_append u)
  have s: "isl (inventoryFrom toPURL inventory) =
       (\<not> (is_dpkg (si_Metadata inventory) \<and> \<not> isl (toPURL inventory)))"
    by (cases "si_Metadata inventory"; cases "toPURL inventory")
       (simp_all add: inventoryFrom_def extractAdditionalFieldsDpkg_def)
  from u d s show ?thesis by simp
qed

theorem inventoryFrom_unsupported_metadata_witness:
  "inventoryFrom purl_of item_rpm = Inl ''unsupported inventory item''
   \<and> is_dpkg (si_Metadata item_bar) \<and> \<not> isl (purl_of item_bar)
   \<and> \<not> isl (inventoryFrom purl_of item_bar)"
  using inventoryFrom_unsupported_metadata
      [where toPURL = purl_of and inventory = item_rpm and kind = "''*rpm.Metadata''"]
    inventoryFrom_unsupported_metadata [where toPURL = purl_of and inventory = item_bar]
  by (simp add: item_rpm_def item_bar_def purl_of_def)



section \<open>Claims about the comparison report\<close>

lemma isExported_comparisonResults:
  "\<not> isExported ''legacyExtractorItemsCount''" "\<not> isExported ''modernExtractorItemsCount''"
  "\<not> isExported ''legacyExtractorExtra''" "\<not> isExported ''modernExtractorExtra''"
  by (simp_all add: isExported_def)

lemma typeFields_comparisonResults: "typeFields (comparisonResults_fields report) = []"
  by (simp add: typeFields_def comparisonResults_fields_def isExported_comparisonResults)

text \<open>The model does encode a struct whose fields are exported.\<close>

lemma MarshalIndent_exported:
  "MarshalIndent (\<lambda>v. Inr ''1'') (exported_fields report) [] ''  '' =
     Inr (''{'' @ [CHR 0x0A] @ ''  '' @ [CHR 0x22] @ ''legacy_items_count'' @ [CHR 0x22] @ '': 1,''
          @ [CHR 0x0A] @ ''  '' @ [CHR 0x22] @ ''new_items_count'' @ [CHR 0x22] @ '': 1''
          @ [CHR 0x0A] @ ''}'')"
  by (simp add: MarshalIndent_def typeFields_def exported_fields_def isExported_def
      dominant_def jsonName_def tagName_def)

text \<open>
  C9. For every comparison result, \<open>json.MarshalIndent\<close> of the report is \<open>{}\<close>: no
  field of \<open>comparisonResults\<close> is exported, so the object has no member, whatever the
  counts and the extra lists and however the library encodes field values (even where
  it would fail on one). \<open>printComparisonResult\<close> therefore logs its headline and
  \<open>{}\<close>, and never the error.
\<close>

theorem printComparisonResult_empty_object:
  "MarshalIndent enc (comparisonResults_fields report) [] ''    '' = Inr ''{}''
   \<and> printComparisonResult enc report =
       [Infof ''Comparison results after inventory extraction'', Infof ''{}'']"
  by (simp add: printComparisonResult_def MarshalIndent_def typeFields_comparisonResults)

section \<open>Facts about the task queue\<close>

subsection \<open>The steps, case by case\<close>

lemma find_sender_Some:
  "find_sender cs = Some (i, t) \<Longrightarrow> i < length cs \<and> pc (cs ! i) = Enqueue_send t"
proof (induction cs arbitrary: i)
  case Nil
  then show ?case by simp
next
  case (Cons c cs)
  show ?case
  proof (cases "\<exists>u. pc c = Enqueue_send u")
    case True
    with Cons.prems show ?thesis by auto
  next
    case False
    with Cons.prems obtain k where k: "find_sender cs = Some (k, t)" "i = Suc k"
      by (cases "pc c") auto
    from Cons.IH [OF k(1)] k(2) show ?thesis by simp
  qed
qed

lemma find_sender_None:
  "find_sender cs = None \<Longrightarrow> i < length cs \<Longrightarrow> pc (cs ! i) \<noteq> Enqueue_send t"
proof (induction cs arbitrary: i)
  case Nil
  then show ?case by simp
next
  case (Cons c cs)
  then show ?case
    by (cases i; cases "pc c") auto
qed

lemma step_client_cases:
  assumes "step_client i s = Some s'"
  obtains
    (call_Enqueue) t rest where "\<not> panicked s" "i < length (clients s)" "pc (clients s ! i) = Idle"
      "script (clients s ! i) = Enqueue t # rest"
      "s' = s \<lparr> clients := (clients s)[i := (clients s ! i) \<lparr> pc := Enqueue_once t, script := rest \<rparr>] \<rparr>"
  | (call_Close) rest where "\<not> panicked s" "i < length (clients s)" "pc (clients s ! i) = Idle"
      "script (clients s ! i) = Close # rest"
      "s' = s \<lparr> clients := (clients s)[i := (clients s ! i) \<lparr> pc := Close_Lock, script := rest \<rparr>] \<rparr>"
  | (once_spawn) t where "\<not> panicked s" "i < length (clients s)" "pc (clients s ! i) = Enqueue_once t"
      "\<not> once_done s"
      "s' = s \<lparr> once_done := True, workers := workers s @ [Loop_Add],
                 clients := (clients s)[i := (clients s ! i) \<lparr> pc := Enqueue_Lock t \<rparr>] \<rparr>"
  | (once_skip) t where "\<not> panicked s" "i < length (clients s)" "pc (clients s ! i) = Enqueue_once t"
      "once_done s"
      "s' = s \<lparr> clients := (clients s)[i := (clients s ! i) \<lparr> pc := Enqueue_Lock t \<rparr>] \<rparr>"
  | (Lock) t where "\<not> panicked s" "i < length (clients s)" "pc (clients s ! i) = Enqueue_Lock t"
      "\<not> mx s"
      "s' = s \<lparr> mx := True, clients := (clients s)[i := (clients s ! i) \<lparr> pc := Enqueue_send t \<rparr>] \<rparr>"
  | (send_panic) t where "\<not> panicked s" "i < length (clients s)" "pc (clients s ! i) = Enqueue_send t"
      "tc_closed s" "s' = s \<lparr> panicked := True \<rparr>"
  | (Unlock) t where "\<not> panicked s" "i < length (clients s)" "pc (clients s ! i) = Enqueue_Unlock t"
      "s' = s \<lparr> mx := False,
                 clients := (clients s)[i := (clients s ! i)
                   \<lparr> pc := Idle, returned := returned (clients s ! i) @ [Enqueue t] \<rparr>] \<rparr>"
  | (cLock) "\<not> panicked s" "i < length (clients s)" "pc (clients s ! i) = Close_Lock" "\<not> mx s"
      "s' = s \<lparr> mx := True, clients := (clients s)[i := (clients s ! i) \<lparr> pc := Close_close \<rparr>] \<rparr>"
  | (close) "\<not> panicked s" "i < length (clients s)" "pc (clients s ! i) = Close_close" "\<not> tc_closed s"
      "s' = s \<lparr> tc_closed := True,
                 clients := (clients s)[i := (clients s ! i) \<lparr> pc := Close_Wait \<rparr>] \<rparr>"
  | (close_panic) "\<not> panicked s" "i < length (clients s)" "pc (clients s ! i) = Close_close" "tc_closed s"
      "s' = s \<lparr> panicked := True \<rparr>"
  | (Wait) "\<not> panicked s" "i < length (clients s)" "pc (clients s ! i) = Close_Wait" "wg s = 0"
      "s' = s \<lparr> clients := (clients s)[i := (clients s ! i)
                   \<lparr> pc := Idle, returned := returned (clients s ! i) @ [Close] \<rparr>] \<rparr>"
proof -
  from assms have np: "\<not> panicked s" and len: "i < length (clients s)"
    by (auto simp: step_client_def split: if_splits)
  show thesis
  proof (cases "pc (clients s ! i)")
    case Idle
    show ?thesis
    proof (cases "script (clients s ! i)")
      case Nil
      with assms np len Idle show ?thesis by (simp add: step_client_def Let_def)
    next
      case (Cons a rest)
      with assms np len Idle show ?thesis
        by (cases a) (auto simp: step_client_def Let_def intro: call_Enqueue call_Close)
    qed
  next
    case (Enqueue_once t)
    with assms np len show ?thesis
      by (cases "once_done s") (auto simp: step_client_def Let_def intro: once_spawn once_skip)
  next
    case (Enqueue_Lock t)
    with assms np len show ?thesis
      by (cases "mx s") (auto simp: step_client_def Let_def intro: Lock)
  next
    case (Enqueue_send t)
    with assms np len show ?thesis
      by (cases "tc_closed s") (auto simp: step_client_def Let_def intro: send_panic)
  next
    case (Enqueue_Unlock t)
    with assms np len show ?thesis
      by (auto simp: step_client_def Let_def intro: Unlock)
  next
    case Close_Lock
    with assms np len show ?thesis
      by (cases "mx s") (auto simp: step_client_def Let_def intro: cLock)
  next
    case Close_close
    with assms np len show ?thesis
      by (cases "tc_closed s") (auto simp: step_client_def Let_def intro: close close_panic)
  next
    case Close_Wait
    with assms np len show ?thesis
      by (cases "wg s = 0") (auto simp: step_client_def Let_def intro: Wait)
  qed
qed

lemma step_worker_cases:
  assumes "step_worker j s = Some s'"
  obtains
    (Add) "\<not> panicked s" "j < length (workers s)" "workers s ! j = Loop_Add"
      "s' = s \<lparr> wg := wg s + 1, workers := (workers s)[j := Loop_range] \<rparr>"
  | (range_closed) "\<not> panicked s" "j < length (workers s)" "workers s ! j = Loop_range" "tc_closed s"
      "s' = s \<lparr> workers := (workers s)[j := Loop_Done] \<rparr>"
  | (handoff) i t where "\<not> panicked s" "j < length (workers s)" "workers s ! j = Loop_range"
      "\<not> tc_closed s" "i < length (clients s)" "pc (clients s ! i) = Enqueue_send t"
      "s' = s \<lparr> clients := (clients s)[i := (clients s ! i) \<lparr> pc := Enqueue_Unlock t \<rparr>],
                 workers := (workers s)[j := Loop_run t],
                 received := received s @ [t] \<rparr>"
  | (run) t where "\<not> panicked s" "j < length (workers s)" "workers s ! j = Loop_run t"
      "s' = s \<lparr> workers := (workers s)[j := Loop_range], finished := finished s @ [t] \<rparr>"
  | (Done_panic) "\<not> panicked s" "j < length (workers s)" "workers s ! j = Loop_Done" "wg s = 0"
      "s' = s \<lparr> panicked := True \<rparr>"
  | (Done) "\<not> panicked s" "j < length (workers s)" "workers s ! j = Loop_Done" "wg s \<noteq> 0"
      "s' = s \<lparr> wg := wg s - 1, workers := (workers s)[j := Loop_exited] \<rparr>"
proof -
  from assms have np: "\<not> panicked s" and len: "j < length (workers s)"
    by (auto simp: step_worker_def split: if_splits)
  show thesis
  proof (cases "workers s ! j")
    case Loop_Add
    with assms np len show ?thesis by (auto simp: step_worker_def intro: Add)
  next
    case Loop_range
    show ?thesis
    proof (cases "tc_closed s")
      case True
      with assms np len Loop_range show ?thesis
        by (auto simp: step_worker_def intro: range_closed)
    next
      case False
      with assms np len Loop_range obtain i t where f: "find_sender (clients s) = Some (i, t)"
        by (cases "find_sender (clients s)") (auto simp: step_worker_def)
      from find_sender_Some [OF f] assms np len Loop_range False f show ?thesis
        by (auto simp: step_worker_def intro: handoff)
    qed
  next
    case (Loop_run t)
    with assms np len show ?thesis by (auto simp: step_worker_def intro: run)
  next
    case Loop_Done
    with assms np len show ?thesis
      by (cases "wg s = 0") (auto simp: step_worker_def intro: Done_panic Done)
  next
    case Loop_exited
    with assms np len show ?thesis by (simp add: step_worker_def)
  qed
qed

subsection \<open>The invariants hold in every reachable state\<close>

lemma queue_inv_init: "queue_inv (NewTaskQueue scripts)"
  by (simp add: queue_inv_def lock_inv_def worker_inv_def client_inv_def close_inv_def
      NewTaskQueue_def holds_mx_def past_once_def running_def)

lemma single_worker: "length ws \<le> 1 \<Longrightarrow> j < length ws \<Longrightarrow> j = 0 \<and> ws = [ws ! 0]"
  by (cases ws) auto

lemma lock_inv_client:
  assumes "queue_inv s" and "step_client i s = Some s'"
  shows "\<not> panicked s' \<and> lock_inv s'"
  using assms(2) assms(1)
  by (cases rule: step_client_cases)
     (auto simp: queue_inv_def lock_inv_def holds_mx_def nth_list_update)

lemma worker_inv_client:
  assumes "queue_inv s" and "step_client i s = Some s'"
  shows "worker_inv s'"
  using assms(2) assms(1)
  by (cases rule: step_client_cases)
     (auto simp: queue_inv_def worker_inv_def counted_def running_def)

lemma client_inv_client:
  assumes "queue_inv s" and "step_client i s = Some s'"
  shows "client_inv s'"
  using assms(2) assms(1)
  by (cases rule: step_client_cases)
     (auto simp: queue_inv_def client_inv_def lock_inv_def holds_mx_def past_once_def
        nth_list_update)

lemma lock_inv_worker:
  assumes "queue_inv s" and "step_worker j s = Some s'"
  shows "\<not> panicked s' \<and> lock_inv s'"
  using assms(2)
proof (cases rule: step_worker_cases)
  case Add
  with assms(1) show ?thesis
    by (auto simp: queue_inv_def lock_inv_def holds_mx_def)
next
  case range_closed
  with assms(1) show ?thesis
    by (auto simp: queue_inv_def lock_inv_def holds_mx_def)
next
  case (handoff i t)
  with assms(1) show ?thesis
    by (auto simp: queue_inv_def lock_inv_def holds_mx_def nth_list_update)
next
  case (run t)
  with assms(1) show ?thesis
    by (auto simp: queue_inv_def lock_inv_def holds_mx_def)
next
  case Done_panic
  with assms(1) single_worker [of "workers s" j] show ?thesis
    by (cases "workers s") (auto simp: queue_inv_def worker_inv_def counted_def)
next
  case Done
  with assms(1) show ?thesis
    by (auto simp: queue_inv_def lock_inv_def holds_mx_def)
qed

lemma worker_inv_worker:
  assumes "queue_inv s" and "step_worker j s = Some s'"
  shows "worker_inv s'"
  using assms(2) assms(1)
proof (cases rule: step_worker_cases)
  case Add
  with assms(1) single_worker [of "workers s" j] show ?thesis
    by (cases "workers s") (auto simp: queue_inv_def worker_inv_def counted_def running_def)
next
  case range_closed
  with assms(1) single_worker [of "workers s" j] show ?thesis
    by (cases "workers s") (auto simp: queue_inv_def worker_inv_def counted_def running_def)
next
  case (handoff i t)
  with assms(1) single_worker [of "workers s" j] show ?thesis
    by (cases "workers s") (auto simp: queue_inv_def worker_inv_def counted_def running_def)
next
  case (run t)
  with assms(1) single_worker [of "workers s" j] show ?thesis
    by (cases "workers s") (auto simp: queue_inv_def worker_inv_def counted_def running_def)
next
  case Done_panic
  with assms(1) single_worker [of "workers s" j] show ?thesis
    by (cases "workers s") (auto simp: queue_inv_def worker_inv_def counted_def running_def)
next
  case Done
  with assms(1) single_worker [of "workers s" j] show ?thesis
    by (cases "workers s") (auto simp: queue_inv_def worker_inv_def counted_def running_def)
qed

lemma client_inv_worker:
  assumes "queue_inv s" and "step_worker j s = Some s'"
  shows "client_inv s'"
  using assms(2) assms(1)
  by (cases rule: step_worker_cases)
     (auto simp: queue_inv_def client_inv_def past_once_def nth_list_update)

lemma not_counted_not_running: "filter counted ws = [] \<Longrightarrow> running ws = []"
proof (induction ws)
  case Nil
  then show ?case by (simp add: running_def)
next
  case (Cons w ws)
  then show ?case by (cases w) (auto simp: running_def counted_def split: if_splits)
qed

lemma close_inv_client:
  assumes "queue_inv s" and "step_client i s = Some s'"
  shows "close_inv s'"
proof (cases "pc (clients s ! i) = Close_Wait")
  case True
  from assms(2) True have w: "wg s = 0"
      "s' = s \<lparr> clients := (clients s)[i := (clients s ! i)
                   \<lparr> pc := Idle, returned := returned (clients s ! i) @ [Close] \<rparr>] \<rparr>"
    by (cases rule: step_client_cases; simp)+
  with assms(1) have "filter counted (workers s) = []"
    by (simp add: queue_inv_def worker_inv_def)
  then have "running (workers s) = []" by (rule not_counted_not_running)
  with w show ?thesis by (simp add: close_inv_def)
next
  case False
  with assms(2) assms(1) show ?thesis
    by (cases rule: step_client_cases)
       (auto simp: queue_inv_def close_inv_def nth_list_update running_def split: if_splits)
qed

lemma close_inv_worker:
  assumes "queue_inv s" and "step_worker j s = Some s'"
  shows "close_inv s'"
  using assms(2)
proof (cases rule: step_worker_cases)
  case Add
  with assms(1) single_worker [of "workers s" j] show ?thesis
    by (cases "workers s") (auto simp: queue_inv_def worker_inv_def close_inv_def running_def)
next
  case range_closed
  with assms(1) single_worker [of "workers s" j] show ?thesis
    by (cases "workers s") (auto simp: queue_inv_def worker_inv_def close_inv_def running_def)
next
  case (handoff i t)
  with assms(1) show ?thesis
    by (auto simp: queue_inv_def client_inv_def close_inv_def nth_list_update split: if_splits)
next
  case (run t)
  with assms(1) single_worker [of "workers s" j] show ?thesis
    by (cases "workers s") (auto simp: queue_inv_def worker_inv_def close_inv_def running_def)
next
  case Done_panic
  with assms(1) show ?thesis by (auto simp: queue_inv_def close_inv_def)
next
  case Done
  with assms(1) single_worker [of "workers s" j] show ?thesis
    by (cases "workers s") (auto simp: queue_inv_def worker_inv_def close_inv_def running_def)
qed

lemma queue_inv_step:
  assumes "queue_inv s" and "step t s = Some s'"
  shows "queue_inv s'"
proof (cases t)
  case (Client i)
  with assms lock_inv_client [of s i s'] worker_inv_client [of s i s'] client_inv_client [of s i s']
    close_inv_client [of s i s']
  show ?thesis by (simp add: queue_inv_def)
next
  case (Worker j)
  with assms lock_inv_worker [of s j s'] worker_inv_worker [of s j s'] client_inv_worker [of s j s']
    close_inv_worker [of s j s']
  show ?thesis by (simp add: queue_inv_def)
qed

lemma queue_inv_exec: "queue_inv s \<Longrightarrow> queue_inv (exec sched s)"
  by (induction sched arbitrary: s) (auto split: option.splits dest: queue_inv_step)

subsection \<open>A single client that enqueues\<close>

lemma pending_map_Enqueue: "enqueued (map Enqueue ts) = ts"
  by (induction ts) simp_all

lemma fifo_inv_init: "fifo_inv ts (NewTaskQueue [map Enqueue ts])"
  by (auto simp: fifo_inv_def NewTaskQueue_def pending_def closing_pc_def pending_map_Enqueue)

lemma fifo_inv_client:
  assumes "fifo_inv ts s" and "step_client i s = Some s'"
  shows "fifo_inv ts s'"
  using assms(2) assms(1)
  by (cases rule: step_client_cases)
     (auto simp: fifo_inv_def pending_def closing_pc_def)

lemma fifo_inv_worker:
  assumes "fifo_inv ts s" and "step_worker j s = Some s'"
  shows "fifo_inv ts s'"
  using assms(2) assms(1)
  by (cases rule: step_worker_cases)
     (auto simp: fifo_inv_def pending_def closing_pc_def)

lemma fifo_inv_step: "fifo_inv ts s \<Longrightarrow> step t s = Some s' \<Longrightarrow> fifo_inv ts s'"
  by (cases t) (auto dest: fifo_inv_client fifo_inv_worker)

lemma fifo_inv_exec: "fifo_inv ts s \<Longrightarrow> fifo_inv ts (exec sched s)"
  by (induction sched arbitrary: s) (auto split: option.splits dest: fifo_inv_step)

lemma fifo_prefix:
  assumes "fifo_inv ts s" and "queue_inv s"
  shows "prefix (finished s) ts"
proof -
  from assms(2) have "received s = finished s @ running (workers s)"
    by (simp add: queue_inv_def worker_inv_def)
  with assms(1) have "ts = finished s @ (running (workers s) @ pending (clients s ! 0))"
    by (simp add: fifo_inv_def)
  then show ?thesis by (rule prefixI)
qed

lemma terminal_client:
  assumes "terminal s" and "i < length (clients s)"
  shows "step_client i s = None"
proof -
  from assms(1) have "\<forall>t\<in>set (threads s). step t s = None"
    by (simp add: terminal_def list_all_iff)
  moreover from assms(2) have "Client i \<in> set (threads s)" by (simp add: threads_def)
  ultimately have "step (Client i) s = None" by (rule bspec)
  then show ?thesis by simp
qed

lemma terminal_worker:
  assumes "terminal s" and "j < length (workers s)"
  shows "step_worker j s = None"
proof -
  from assms(1) have "\<forall>t\<in>set (threads s). step t s = None"
    by (simp add: terminal_def list_all_iff)
  moreover from assms(2) have "Worker j \<in> set (threads s)" by (simp add: threads_def)
  ultimately have "step (Worker j) s = None" by (rule bspec)
  then show ?thesis by simp
qed

lemma fifo_terminal:
  assumes f: "fifo_inv ts s" and q: "queue_inv s" and t: "terminal s"
  shows "finished s = ts"
proof -
  let ?c = "clients s ! 0"
  from f have len: "0 < length (clients s)" by (simp add: fifo_inv_def)
  from q have np: "\<not> panicked s" by (simp add: queue_inv_def)
  from terminal_client [OF t len] have sc: "step_client 0 s = None" .
  have idle: "pc ?c = Idle \<and> script ?c = []"
  proof (cases "pc ?c")
    case Idle
    with sc np len f show ?thesis
      by (cases "script ?c"; cases "hd (script ?c)")
         (auto simp: step_client_def Let_def fifo_inv_def)
  next
    case (Enqueue_once t)
    with sc np len show ?thesis by (auto simp: step_client_def Let_def split: if_splits)
  next
    case (Enqueue_Lock t)
    with sc np len have "mx s" by (auto simp: step_client_def Let_def split: if_splits)
    with q f Enqueue_Lock show ?thesis
      by (auto simp: queue_inv_def lock_inv_def fifo_inv_def holds_mx_def)
  next
    case (Enqueue_send u)
    with q len have "once_done s" by (auto simp: queue_inv_def client_inv_def past_once_def)
    with q have w: "workers s = [workers s ! 0]" "0 < length (workers s)"
      by (cases "workers s"; auto simp: queue_inv_def worker_inv_def)+
    from terminal_worker [OF t w(2)] have sw: "step_worker 0 s = None" .
    from f have nc: "\<not> tc_closed s" by (simp add: fifo_inv_def)
    have fs: "find_sender (clients s) \<noteq> None"
    proof
      assume "find_sender (clients s) = None"
      from find_sender_None [OF this len, of u] Enqueue_send show False by simp
    qed
    show ?thesis
    proof (cases "workers s ! 0")
      case Loop_Add
      with sw np w show ?thesis by (auto simp: step_worker_def)
    next
      case Loop_range
      with sw np w nc fs show ?thesis by (auto simp: step_worker_def split: option.splits)
    next
      case (Loop_run x3)
      with sw np w show ?thesis by (auto simp: step_worker_def)
    next
      case Loop_Done
      with sw np w show ?thesis by (auto simp: step_worker_def split: if_splits)
    next
      case Loop_exited
      with q w nc show ?thesis
        by (auto simp: queue_inv_def worker_inv_def)
    qed
  next
    case (Enqueue_Unlock t)
    with sc np len show ?thesis by (auto simp: step_client_def Let_def)
  next
    case Close_Lock
    with f show ?thesis by (simp add: fifo_inv_def closing_pc_def)
  next
    case Close_close
    with f show ?thesis by (simp add: fifo_inv_def closing_pc_def)
  next
    case Close_Wait
    with f show ?thesis by (simp add: fifo_inv_def closing_pc_def)
  qed
  with f have r: "received s = ts" by (simp add: fifo_inv_def pending_def)
  have "running (workers s) = []"
  proof (cases "workers s")
    case Nil
    then show ?thesis by (simp add: running_def)
  next
    case (Cons w ws)
    with q have ws: "workers s = [w]" by (simp add: queue_inv_def worker_inv_def)
    then have "step_worker 0 s = None" using terminal_worker [OF t, of 0] by simp
    with ws np show ?thesis
      by (cases w) (auto simp: running_def step_worker_def)
  qed
  with q r show ?thesis by (simp add: queue_inv_def worker_inv_def)
qed

subsection \<open>Every run ends\<close>

lemma sum_list_map_update:
  "i < length xs \<Longrightarrow>
   sum_list (map f (xs[i := x])) + f (xs ! i) = sum_list (map f xs) + (f x :: nat)"
proof (induction xs arbitrary: i)
  case Nil
  then show ?case by simp
next
  case (Cons a xs)
  then show ?case by (cases i) auto
qed

lemma step_client_weight:
  assumes "step_client i s = Some s'"
  shows "weight s' < weight s"
  using assms
proof (cases rule: step_client_cases)
  case (call_Enqueue t rest)
  with sum_list_map_update [of i "clients s" client_weight
      "(clients s ! i) \<lparr> pc := Enqueue_once t, script := rest \<rparr>"]
  show ?thesis by (simp add: weight_def client_weight_def)
next
  case (call_Close rest)
  with sum_list_map_update [of i "clients s" client_weight
      "(clients s ! i) \<lparr> pc := Close_Lock, script := rest \<rparr>"]
  show ?thesis by (simp add: weight_def client_weight_def)
next
  case (once_spawn t)
  with sum_list_map_update [of i "clients s" client_weight
      "(clients s ! i) \<lparr> pc := Enqueue_Lock t \<rparr>"]
  show ?thesis by (simp add: weight_def client_weight_def worker_weight_def)
next
  case (once_skip t)
  with sum_list_map_update [of i "clients s" client_weight
      "(clients s ! i) \<lparr> pc := Enqueue_Lock t \<rparr>"]
  show ?thesis by (simp add: weight_def client_weight_def)
next
  case (Lock t)
  with sum_list_map_update [of i "clients s" client_weight
      "(clients s ! i) \<lparr> pc := Enqueue_send t \<rparr>"]
  show ?thesis by (simp add: weight_def client_weight_def)
next
  case (send_panic t)
  then show ?thesis by (simp add: weight_def)
next
  case (Unlock t)
  with sum_list_map_update [of i "clients s" client_weight
      "(clients s ! i) \<lparr> pc := Idle, returned := returned (clients s ! i) @ [Enqueue t] \<rparr>"]
  show ?thesis by (simp add: weight_def client_weight_def)
next
  case cLock
  with sum_list_map_update [of i "clients s" client_weight
      "(clients s ! i) \<lparr> pc := Close_close \<rparr>"]
  show ?thesis by (simp add: weight_def client_weight_def)
next
  case close
  with sum_list_map_update [of i "clients s" client_weight
      "(clients s ! i) \<lparr> pc := Close_Wait \<rparr>"]
  show ?thesis by (simp add: weight_def client_weight_def)
next
  case close_panic
  then show ?thesis by (simp add: weight_def)
next
  case Wait
  with sum_list_map_update [of i "clients s" client_weight
      "(clients s ! i) \<lparr> pc := Idle, returned := returned (clients s ! i) @ [Close] \<rparr>"]
  show ?thesis by (simp add: weight_def client_weight_def)
qed

lemma step_worker_weight:
  assumes "step_worker j s = Some s'"
  shows "weight s' < weight s"
  using assms
proof (cases rule: step_worker_cases)
  case Add
  with sum_list_map_update [of j "workers s" worker_weight Loop_range]
  show ?thesis by (simp add: weight_def worker_weight_def)
next
  case range_closed
  with sum_list_map_update [of j "workers s" worker_weight Loop_Done]
  show ?thesis by (simp add: weight_def worker_weight_def)
next
  case (handoff i t)
  with sum_list_map_update [of j "workers s" worker_weight "Loop_run t"]
    sum_list_map_update [of i "clients s" client_weight
      "(clients s ! i) \<lparr> pc := Enqueue_Unlock t \<rparr>"]
  show ?thesis by (simp add: weight_def worker_weight_def client_weight_def)
next
  case (run t)
  with sum_list_map_update [of j "workers s" worker_weight Loop_range]
  show ?thesis by (simp add: weight_def worker_weight_def)
next
  case Done_panic
  then show ?thesis by (simp add: weight_def)
next
  case Done
  with sum_list_map_update [of j "workers s" worker_weight Loop_exited]
  show ?thesis by (simp add: weight_def worker_weight_def)
qed

lemma step_weight: "step t s = Some s' \<Longrightarrow> weight s' < weight s"
  by (cases t) (auto dest: step_client_weight step_worker_weight)

lemma exec_append: "exec (a @ b) s = exec b (exec a s)"
  by (induction a arbitrary: s) (auto split: option.splits)

lemma terminal_reachable: "\<exists>later. terminal (exec later s)"
proof (induction "weight s" arbitrary: s rule: less_induct)
  case less
  show ?case
  proof (cases "terminal s")
    case True
    then have "terminal (exec [] s)" by simp
    then show ?thesis by blast
  next
    case False
    then obtain t s' where t: "step t s = Some s'"
      by (auto simp: terminal_def list_all_iff)
    from step_weight [OF t] less obtain later where "terminal (exec later s')" by blast
    with t have "terminal (exec (t # later) s)" by simp
    then show ?thesis by blast
  qed
qed

subsection \<open>After \<open>Close\<close>\<close>

lemma handed_client:
  assumes "queue_inv s" and "step_client i s = Some s'" and "handed k t s"
  shows "handed k t s'"
  using assms(2) assms(1) assms(3)
  by (cases rule: step_client_cases)
     (auto simp: handed_def queue_inv_def lock_inv_def holds_mx_def nth_list_update)

lemma handed_worker:
  assumes "queue_inv s" and "step_worker j s = Some s'" and "handed k t s"
  shows "handed k t s'"
  using assms(2) assms(1) assms(3)
  by (cases rule: step_worker_cases)
     (auto simp: handed_def queue_inv_def nth_list_update)

lemma handed_step: "queue_inv s \<Longrightarrow> step x s = Some s' \<Longrightarrow> handed k t s \<Longrightarrow> handed k t s'"
  by (cases x) (auto dest: handed_client handed_worker)

lemma handed_exec: "queue_inv s \<Longrightarrow> handed k t s \<Longrightarrow> handed k t (exec sched s)"
proof (induction sched arbitrary: s)
  case Nil
  then show ?case by simp
next
  case (Cons x sched)
  show ?case
  proof (cases "step x s")
    case None
    with Cons show ?thesis by simp
  next
    case (Some s')
    with Cons.prems have "queue_inv s'" "handed k t s'"
      by (auto dest: queue_inv_step handed_step)
    with Cons.IH Some show ?thesis by simp
  qed
qed

lemma Close_returned_finished:
  assumes q: "queue_inv s" and c: "Close_returned s"
  shows "finished s = received s \<and> (\<forall>k t. handed k t s \<longrightarrow> t \<in> set (finished s))"
proof -
  from c obtain i where i: "i < length (clients s)" "Close \<in> set (returned (clients s ! i))"
    by (auto simp: Close_returned_def list_ex_length)
  with q have closed: "tc_closed s" by (auto simp: queue_inv_def client_inv_def)
  from q i have "running (workers s) = []" by (auto simp: queue_inv_def close_inv_def)
  with q have fr: "finished s = received s" by (simp add: queue_inv_def worker_inv_def)
  have "t \<in> set (finished s)" if "handed k t s" for k t
  proof -
    from that q closed have "Enqueue t \<in> set (returned (clients s ! k))" "k < length (clients s)"
      by (auto simp: handed_def queue_inv_def lock_inv_def holds_mx_def)
    with q have "t \<in> set (received s)" by (auto simp: queue_inv_def client_inv_def)
    with fr show ?thesis by simp
  qed
  with fr show ?thesis by blast
qed










subsection \<open>The schedules, evaluated\<close>

lemma fifo_eval:
  "exec fifo_schedule (NewTaskQueue [map Enqueue [t0, t1]]) =
     \<lparr> once_done = True, mx = False, tc_closed = False, wg = 1,
       clients = [\<lparr> pc = Idle, script = [], returned = [Enqueue t0, Enqueue t1] \<rparr>],
       workers = [Loop_range], received = [t0, t1], finished = [t0, t1], panicked = False \<rparr>"
  by (simp add: fifo_schedule_def NewTaskQueue_def step_client_def step_worker_def Let_def)

lemma fifo_schedule_terminal: "terminal (exec fifo_schedule (NewTaskQueue [map Enqueue [t0, t1]]))"
  unfolding fifo_eval
  by (simp add: terminal_def threads_def step_client_def step_worker_def)



lemma close_before_eval:
  "exec close_before close_queue =
     \<lparr> once_done = True, mx = True, tc_closed = False, wg = 0,
       clients = [\<lparr> pc = Enqueue_send t0, script = [], returned = [] \<rparr>,
                  \<lparr> pc = Close_Lock, script = [], returned = [] \<rparr>],
       workers = [Loop_Add], received = [], finished = [], panicked = False \<rparr>"
  by (simp add: close_before_def close_queue_def NewTaskQueue_def step_client_def step_worker_def Let_def)

lemma close_after_eval:
  "exec close_after (exec close_before close_queue) =
     \<lparr> once_done = True, mx = True, tc_closed = True, wg = 0,
       clients = [\<lparr> pc = Idle, script = [], returned = [Enqueue t0] \<rparr>,
                  \<lparr> pc = Idle, script = [], returned = [Close] \<rparr>],
       workers = [Loop_exited], received = [t0], finished = [t0], panicked = False \<rparr>"
  by (simp add: close_before_eval close_after_def step_client_def step_worker_def Let_def)


section \<open>Claims about the task queue\<close>

text \<open>
  C1. One client enqueues the tasks \<open>ts\<close> in order on a fresh queue. In every state
  the queue can reach, under every schedule, the tasks whose action has run are a
  prefix of \<open>ts\<close>: no task runs twice or out of order. A state in which no goroutine
  can move has run exactly \<open>ts\<close>, and from every reachable state such a state can be
  reached (every step decreases \<open>weight\<close>, so no run goes on forever). For any
  number of clients and any calls, the queue never has more than one worker and
  never panics.
\<close>

theorem tasks_run_once_in_submission_order:
  "prefix (finished (exec sched (NewTaskQueue [map Enqueue ts]))) ts
   \<and> (terminal (exec sched (NewTaskQueue [map Enqueue ts]))
        \<longrightarrow> finished (exec sched (NewTaskQueue [map Enqueue ts])) = ts)
   \<and> (\<exists>later. terminal (exec (sched @ later) (NewTaskQueue [map Enqueue ts]))
         \<and> finished (exec (sched @ later) (NewTaskQueue [map Enqueue ts])) = ts)
   \<and> length (workers (exec sched' (NewTaskQueue scripts))) \<le> 1
   \<and> \<not> panicked (exec sched' (NewTaskQueue scripts))"
proof -
  let ?q = "NewTaskQueue [map Enqueue ts]"
  have f: "fifo_inv ts (exec sched' ?q)" for sched'
    by (rule fifo_inv_exec) (rule fifo_inv_init)
  have q: "queue_inv (exec sched' (NewTaskQueue scripts))" for sched' scripts
    by (rule queue_inv_exec) (rule queue_inv_init)
  have a: "prefix (finished (exec sched ?q)) ts"
    using f [of sched] q [of sched "[map Enqueue ts]"] by (rule fifo_prefix)
  have b: "finished (exec sched' ?q) = ts" if "terminal (exec sched' ?q)" for sched'
    using f [of sched'] q [of sched' "[map Enqueue ts]"] that by (rule fifo_terminal)
  obtain later where "terminal (exec later (exec sched ?q))"
    using terminal_reachable by blast
  then have t: "terminal (exec (sched @ later) ?q)" by (simp add: exec_append)
  with b have c: "\<exists>later. terminal (exec (sched @ later) ?q) \<and> finished (exec (sched @ later) ?q) = ts"
    by blast
  from q [of sched' scripts] have d: "length (workers (exec sched' (NewTaskQueue scripts))) \<le> 1"
      "\<not> panicked (exec sched' (NewTaskQueue scripts))"
    by (simp_all add: queue_inv_def worker_inv_def)
  from a b c d show ?thesis by blast
qed

theorem tasks_run_once_in_submission_order_witness:
  "terminal (exec fifo_schedule (NewTaskQueue [map Enqueue [t0, t1]]))
   \<and> finished (exec fifo_schedule (NewTaskQueue [map Enqueue [t0, t1]])) = [t0, t1]"
  using tasks_run_once_in_submission_order [of fifo_schedule "[t0, t1]"] fifo_schedule_terminal
  by blast

text \<open>
  C2. Once a call of \<^verbatim>\<open>Close\<close> has returned, every task that had been enqueued, or
  was in the middle of being handed off, in any earlier state has finished executing,
  and so has every task the worker ever received. This holds for any number of
  clients, any calls and every schedule.
\<close>

theorem Close_returns_after_tasks_finished:
  assumes "s1 = exec sched1 (NewTaskQueue scripts)" and "s2 = exec sched2 s1"
    and "Close_returned s2" and "handed k t s1"
  shows "t \<in> set (finished s2) \<and> finished s2 = received s2"
proof -
  from assms(1) have q1: "queue_inv s1" by (simp add: queue_inv_exec queue_inv_init)
  with assms(2) have q2: "queue_inv s2" by (simp add: queue_inv_exec)
  from q1 assms(4) assms(2) have "handed k t s2" by (simp add: handed_exec)
  with Close_returned_finished [OF q2 assms(3)] show ?thesis by blast
qed

theorem Close_returns_after_tasks_finished_witness:
  "handed 0 t0 (exec close_before close_queue)
   \<and> pc (clients (exec close_before close_queue) ! 0) = Enqueue_send t0
   \<and> pc (clients (exec close_before close_queue) ! 1) = Close_Lock
   \<and> Close_returned (exec close_after (exec close_before close_queue))
   \<and> t0 \<in> set (finished (exec close_after (exec close_before close_queue)))"
proof -
  have h: "handed 0 t0 (exec close_before close_queue)"
    unfolding close_before_eval by (simp add: handed_def)
  have c: "Close_returned (exec close_after (exec close_before close_queue))"
    unfolding close_after_eval by (simp add: Close_returned_def)
  have p: "pc (clients (exec close_before close_queue) ! 0) = Enqueue_send t0"
      "pc (clients (exec close_before close_queue) ! 1) = Close_Lock"
    unfolding close_before_eval by simp_all
  have "exec close_before close_queue = exec close_before (NewTaskQueue [[Enqueue t0], [Close]])"
    by (simp only: close_queue_def)
  from Close_returns_after_tasks_finished [OF this refl c h]
  have "t0 \<in> set (finished (exec close_after (exec close_before close_queue)))"
    by (rule conjunct1)
  with h c p show ?thesis by blast
qed




end
